theory Spec2Isabelle
  imports Main "HOL-Library.Sublist"
begin

section \<open>Python values and exceptions\<close>

text \<open>
  What \<open>r.json()\<close> and \<open>r.text()\<close> return: JSON values, with \<open>None\<close> as \<open>JNull\<close> and a
  text body as \<open>JStr\<close>. A \<open>dict\<close> is an association list (the first binding of a key is
  the one that is read). Floats do not occur in the fields the client reads.
\<close>

datatype json =
    JNull
  | JBool bool
  | JInt int
  | JStr string
  | JList "json list"
  | JObj "(string \<times> json) list"

text \<open>
  The exceptions of the model are the instances of Python's \<open>Exception\<close> that the client
  code can meet. Cancellation (\<open>asyncio.CancelledError\<close>) is not among them: the source
  names it only in \<open>Client._run_event\<close>, and there it is an outcome of its own.
  \<open>VKApiError\<close> carries its message as the format string and the values formatted into it.
\<close>

datatype exn =
    KeyError string
  | TypeError
  | AttributeError
  | TimeoutError
  | InvalidStateError
  | LoginError string
  | OtherError string
  | VKApiError string "json list"

text \<open>The arguments of an event: a raw update or an object built by a hydration function.\<close>

datatype 'o val = Raw json | Obj 'o

datatype 's result = Ok 's | Raise exn 's

section \<open>Futures, waiters and the client\<close>

type_synonym fid = nat

text \<open>What \<open>future.set_result\<close> was given: \<open>None\<close>, \<open>args[0]\<close> or the tuple \<open>args\<close>.\<close>

datatype 'o settled = NoValue | Sole "'o val" | Tuple "'o val list"

datatype 'o fstate = Pending | Cancelled | Finished "'o settled" | Failed exn

type_synonym 'o check = "'o val list \<Rightarrow> exn + bool"

type_synonym 'o waiter = "fid \<times> 'o check"

text \<open>
  A task handed to the event loop and not awaited by its creator: a handler wrapped by
  \<open>_schedule_event\<close> (method name, arguments), or one of the \<open>async def handle_*\<close>
  coroutines started by \<open>handle_update\<close> (coroutine name, update type, update object).
\<close>

datatype 'o task = Handler_task string "'o val list" | Hydration_task string string json

record 'o client =
  listeners :: "string \<rightharpoonup> 'o waiter list"
  futures :: "fid \<Rightarrow> 'o fstate"
  next_fid :: fid
  extra_events :: "string list"
  methods :: "string list"
  tasks :: "'o task list"
  force :: bool
  key :: json
  server :: json
  reported :: "exn list"

definition new_client :: "bool \<Rightarrow> string list \<Rightarrow> string list \<Rightarrow> 'o client" where
  "new_client frc extra meths =
     \<lparr> listeners = Map.empty, futures = (\<lambda>_. Pending), next_fid = 0,
       extra_events = extra, methods = meths, tasks = [], force = frc,
       key = JNull, server = JNull, reported = [] \<rparr>"

subsection \<open>\<open>str.lower\<close> on ASCII event names\<close>

definition lower_char :: "char \<Rightarrow> char" where
  "lower_char ch =
     (case map_of (zip ''ABCDEFGHIJKLMNOPQRSTUVWXYZ'' ''abcdefghijklmnopqrstuvwxyz'') ch of
        Some d \<Rightarrow> d
      | None \<Rightarrow> ch)"

definition lower :: "string \<Rightarrow> string" where
  "lower s = map lower_char s"

subsection \<open>\<open>Client.wait_for\<close>\<close>

text \<open>
  \<open>loop.create_future()\<close> allocates the next future of the store. The call returns the
  awaitable \<open>asyncio.wait_for(future, timeout)\<close>; the model returns the future's address.
\<close>

definition wait_for :: "string \<Rightarrow> 'o check option \<Rightarrow> 'o client \<Rightarrow> fid \<times> 'o client" where
  "wait_for event check c =
     (let future = next_fid c;
          chk = (case check of None \<Rightarrow> (\<lambda>_. Inr True) | Some f \<Rightarrow> f);
          ev = lower event;
          ls = (case listeners c ev of None \<Rightarrow> [] | Some l \<Rightarrow> l)
      in (future,
          c\<lparr> futures := (futures c)(future := Pending),
             next_fid := Suc future,
             listeners := (listeners c)(ev \<mapsto> ls @ [(future, chk)]) \<rparr>))"

text \<open>
  The expiry of the timeout is the behaviour of \<open>asyncio.wait_for\<close> from the standard
  library: it cancels the future it awaits and raises \<open>TimeoutError\<close> to the caller.
  \<open>Client.wait_for\<close> has no code of its own for that moment, so the client's registry is
  not touched.
\<close>

datatype 'o wait_result = Got "'o settled" | Wait_fails exn | Wait_cancelled

definition timeout_elapses :: "fid \<Rightarrow> 'o client \<Rightarrow> 'o wait_result \<times> 'o client" where
  "timeout_elapses f c =
     (case futures c f of
        Pending \<Rightarrow> (Wait_fails TimeoutError, c\<lparr> futures := (futures c)(f := Cancelled) \<rparr>)
      | Cancelled \<Rightarrow> (Wait_cancelled, c)
      | Finished v \<Rightarrow> (Got v, c)
      | Failed e \<Rightarrow> (Wait_fails e, c))"

subsection \<open>\<open>Client.dispatch\<close>\<close>

text \<open>\<open>set_result\<close> and \<open>set_exception\<close> raise \<open>InvalidStateError\<close> on a future that is done.\<close>

definition set_result ::
  "(fid \<Rightarrow> 'o fstate) \<Rightarrow> fid \<Rightarrow> 'o settled \<Rightarrow> exn + (fid \<Rightarrow> 'o fstate)" where
  "set_result fs f v = (if fs f = Pending then Inr (fs(f := Finished v)) else Inl InvalidStateError)"

definition set_exception ::
  "(fid \<Rightarrow> 'o fstate) \<Rightarrow> fid \<Rightarrow> exn \<Rightarrow> exn + (fid \<Rightarrow> 'o fstate)" where
  "set_exception fs f e = (if fs f = Pending then Inr (fs(f := Failed e)) else Inl InvalidStateError)"

fun result_value :: "'o val list \<Rightarrow> 'o settled" where
  "result_value [] = NoValue"
| "result_value [x] = Sole x"
| "result_value args = Tuple args"

text \<open>
  The loop \<open>for i, (future, condition) in enumerate(listeners)\<close>. It returns the exception
  that left the loop, if one did, the futures, the list \<open>removed\<close> and, as a trace, the
  futures whose \<open>condition\<close> was called, in the order of the calls.
\<close>

fun waiter_loop ::
  "'o val list \<Rightarrow> (nat \<times> 'o waiter) list \<Rightarrow> (fid \<Rightarrow> 'o fstate) \<Rightarrow> nat list \<Rightarrow> fid list
     \<Rightarrow> exn option \<times> (fid \<Rightarrow> 'o fstate) \<times> nat list \<times> fid list" where
  "waiter_loop args [] fs removed called = (None, fs, removed, called)"
| "waiter_loop args ((i, (future, condition)) # rest) fs removed called =
     (if fs future = Cancelled then waiter_loop args rest fs (removed @ [i]) called
      else (case condition args of
              Inl exc \<Rightarrow>
                (case set_exception fs future exc of
                   Inl e \<Rightarrow> (Some e, fs, removed, called @ [future])
                 | Inr fs' \<Rightarrow> waiter_loop args rest fs' (removed @ [i]) (called @ [future]))
            | Inr res \<Rightarrow>
                if res then
                  (case set_result fs future (result_value args) of
                     Inl e \<Rightarrow> (Some e, fs, removed, called @ [future])
                   | Inr fs' \<Rightarrow> waiter_loop args rest fs' (removed @ [i]) (called @ [future]))
                else waiter_loop args rest fs removed (called @ [future])))"

text \<open>\<open>del listeners[idx]\<close>, for an index in range.\<close>

definition del_index :: "nat \<Rightarrow> 'a list \<Rightarrow> 'a list" where
  "del_index idx xs = take idx xs @ drop (Suc idx) xs"

definition waiter_pass :: "string \<Rightarrow> 'o val list \<Rightarrow> 'o client \<Rightarrow> 'o client result" where
  "waiter_pass event args c =
     (case listeners c event of
        None \<Rightarrow> Ok c
      | Some ls \<Rightarrow>
          if ls = [] then Ok c
          else (case waiter_loop args (enumerate 0 ls) (futures c) [] [] of
                  (Some e, fs, removed, called) \<Rightarrow> Raise e (c\<lparr> futures := fs \<rparr>)
                | (None, fs, removed, called) \<Rightarrow>
                    Ok (c\<lparr> futures := fs,
                           listeners :=
                             (if length removed = length ls then (listeners c)(event := None)
                              else (listeners c)(event \<mapsto> fold del_index (rev removed) ls)) \<rparr>)))"

text \<open>
  \<open>getattr(self, method)\<close> succeeds when the client has a method of that name;
  \<open>_schedule_event\<close> then wraps the handler in a task and returns at once.
\<close>

definition dispatch :: "string \<Rightarrow> 'o val list \<Rightarrow> 'o client \<Rightarrow> 'o client result" where
  "dispatch event args c =
     (let method = ''on_'' @ event in
      case waiter_pass event args c of
        Raise e c' \<Rightarrow> Raise e c'
      | Ok c' \<Rightarrow>
          Ok (if method \<in> set (methods c')
              then c'\<lparr> tasks := tasks c' @ [Handler_task method args] \<rparr>
              else c'))"

text \<open>The futures whose predicate a call of \<open>dispatch\<close> evaluates, in order.\<close>

definition checked :: "string \<Rightarrow> 'o val list \<Rightarrow> 'o client \<Rightarrow> fid list" where
  "checked event args c =
     (case listeners c event of
        None \<Rightarrow> []
      | Some ls \<Rightarrow>
          if ls = [] then []
          else (case waiter_loop args (enumerate 0 ls) (futures c) [] [] of
                  (_, _, _, called) \<Rightarrow> called))"

section \<open>Operations of Python on JSON values\<close>

fun truthy :: "json \<Rightarrow> bool" where
  "truthy JNull = False"
| "truthy (JBool b) = b"
| "truthy (JInt i) = (i \<noteq> 0)"
| "truthy (JStr s) = (s \<noteq> [])"
| "truthy (JList l) = (l \<noteq> [])"
| "truthy (JObj kvs) = (kvs \<noteq> [])"

text \<open>\<open>v[k]\<close> for a string \<open>k\<close>: only a \<open>dict\<close> can be indexed by a string.\<close>

fun subscript :: "json \<Rightarrow> string \<Rightarrow> exn + json" where
  "subscript (JObj kvs) k = (case map_of kvs k of None \<Rightarrow> Inl (KeyError k) | Some v \<Rightarrow> Inr v)"
| "subscript _ k = Inl TypeError"

text \<open>\<open>v.get(k, d)\<close> and \<open>k in v.keys()\<close>: only a \<open>dict\<close> has these methods.\<close>

fun py_get :: "json \<Rightarrow> string \<Rightarrow> json \<Rightarrow> exn + json" where
  "py_get (JObj kvs) k d = Inr (case map_of kvs k of None \<Rightarrow> d | Some v \<Rightarrow> v)"
| "py_get _ k d = Inl AttributeError"

fun has_key :: "json \<Rightarrow> string \<Rightarrow> exn + bool" where
  "has_key (JObj kvs) k = Inr (map_of kvs k \<noteq> None)"
| "has_key _ k = Inl AttributeError"

text \<open>\<open>s in v\<close> for a string \<open>s\<close>: substring, element or key, by the type of \<open>v\<close>.\<close>

fun py_contains :: "string \<Rightarrow> json \<Rightarrow> exn + bool" where
  "py_contains s (JStr t) = Inr (sublist s t)"
| "py_contains s (JList l) = Inr (JStr s \<in> set l)"
| "py_contains s (JObj kvs) = Inr (map_of kvs s \<noteq> None)"
| "py_contains s _ = Inl TypeError"

text \<open>\<open>for x in v\<close>: the elements of a list, the keys of a \<open>dict\<close>, the characters of a string.\<close>

fun py_iter :: "json \<Rightarrow> exn + json list" where
  "py_iter (JList l) = Inr l"
| "py_iter (JObj kvs) = Inr (map JStr (remdups (map fst kvs)))"
| "py_iter (JStr s) = Inr (map (\<lambda>ch. JStr [ch]) s)"
| "py_iter _ = Inl TypeError"

text \<open>\<open>s.replace(r'\/', '/')\<close>.\<close>

fun unescape :: "string \<Rightarrow> string" where
  "unescape (a # b # s) =
     (if a = CHR 0x5C \<and> b = CHR ''/'' then CHR ''/'' # unescape s else a # unescape (b # s))"
| "unescape s = s"

section \<open>Hydration and \<open>Client.handle_update\<close>\<close>

text \<open>
  The collaborators that are outside the client: \<open>build_msg\<close> (through the classes it
  instantiates), the attribute \<open>msg.action.type\<close> of a message whose \<open>action\<close> is set,
  \<open>get_video_comment\<close> as \<open>handle_video_comment_new\<close> calls it, and the awaited functions
  (\<open>get_state\<close>, \<open>get_pages\<close>, \<open>get_photo\<close>, ...), named by the function called; and
  how the bodies of the \<open>on_...\<close> methods and of \<open>on_error\<close> end.
\<close>

datatype outcome = Returns | Cancels | Raises exn

record 'o collab =
  build_msg :: "json \<Rightarrow> exn + 'o"
  action_type :: "'o \<Rightarrow> string option"
  get_video_comment :: "json \<Rightarrow> exn + 'o"
  awaited :: "string \<Rightarrow> json \<Rightarrow> exn + 'o"
  method_body :: "string \<Rightarrow> 'o val list \<Rightarrow> outcome"
  on_error_body :: "string \<Rightarrow> 'o val list \<Rightarrow> outcome"

definition start_payload :: string where
  "start_payload = ''{'' @ [CHR 0x22] @ ''command'' @ [CHR 0x22] @ '':'' @ [CHR 0x22] @ ''start'' @ [CHR 0x22] @ ''}''"

definition handle_message :: "'o collab \<Rightarrow> json \<Rightarrow> 'o client \<Rightarrow> 'o client result" where
  "handle_message co message c =
     (case build_msg co message of
        Inl e \<Rightarrow> Raise e c
      | Inr msg \<Rightarrow>
          (case py_get message ''payload'' JNull of
             Inl e \<Rightarrow> Raise e c
           | Inr payload \<Rightarrow>
               if truthy payload \<and> payload = JStr start_payload
               then dispatch ''conversation_start'' [Obj msg] c
               else (case action_type co msg of
                       Some atype \<Rightarrow> dispatch atype [Obj msg] c
                     | None \<Rightarrow> dispatch ''message_new'' [Obj msg] c)))"

definition handle_message_reply :: "'o collab \<Rightarrow> string \<Rightarrow> json \<Rightarrow> 'o client \<Rightarrow> 'o client result" where
  "handle_message_reply co t obj c =
     (case build_msg co obj of Inl e \<Rightarrow> Raise e c | Inr msg \<Rightarrow> dispatch t [Obj msg] c)"

definition handle_message_edit :: "'o collab \<Rightarrow> string \<Rightarrow> json \<Rightarrow> 'o client \<Rightarrow> 'o client result" where
  "handle_message_edit co t obj c =
     (case build_msg co obj of Inl e \<Rightarrow> Raise e c | Inr msg \<Rightarrow> dispatch t [Obj msg] c)"

definition handle_video_comment_new :: "'o collab \<Rightarrow> string \<Rightarrow> json \<Rightarrow> 'o client \<Rightarrow> 'o client result" where
  "handle_video_comment_new co t obj c =
     (case get_video_comment co obj of Inl e \<Rightarrow> Raise e c | Inr comment \<Rightarrow> dispatch t [Obj comment] c)"

text \<open>\<open>self.loop.create_task(self.handle_...(t, obj))\<close>: the coroutine is queued, not run.\<close>

definition create_task :: "string \<Rightarrow> string \<Rightarrow> json \<Rightarrow> 'o client \<Rightarrow> 'o client result" where
  "create_task coro t obj c = Ok (c\<lparr> tasks := tasks c @ [Hydration_task coro t obj] \<rparr>)"

definition implemented_events :: "string list" where
  "implemented_events =
     [''message_new'', ''message_reply'', ''message_allow'', ''message_deny'', ''message_edit'',
      ''message_typing_state'', ''photo_new'', ''audio_new'', ''video_new'', ''wall_reply_new'',
      ''wall_reply_edit'', ''wall_reply_delete'', ''wall_reply_restore'', ''wall_post_new'',
      ''wall_repost'', ''board_post_new'', ''board_post_edit'', ''board_post_restore'',
      ''board_post_delete'', ''photo_comment_new'', ''photo_comment_edit'',
      ''photo_comment_delete'', ''photo_comment_restore'', ''video_comment_new'',
      ''video_comment_edit'', ''video_comment_delete'', ''video_comment_restore'',
      ''market_comment_new'', ''market_comment_edit'', ''market_comment_delete'',
      ''market_comment_restore'', ''poll_vote_new'', ''group_join'', ''group_leave'',
      ''group_change_settings'', ''group_change_photo'', ''group_officers_edit'', ''user_block'',
      ''user_unblock'']"

text \<open>\<open>x in self.extra_events\<close> and \<open>any(event in self.extra_events for event in names)\<close>.\<close>

definition extra :: "'o client \<Rightarrow> string \<Rightarrow> bool" where
  "extra c name = (name \<in> set (extra_events c))"

definition any_extra :: "'o client \<Rightarrow> string list \<Rightarrow> bool" where
  "any_extra c names = list_ex (\<lambda>event. event \<in> set (extra_events c)) names"

text \<open>
  The \<open>if\<close>/\<open>elif\<close> chain of \<open>handle_update\<close> after \<open>obj = update['object']\<close>, for an update
  whose type is the string \<open>t\<close>. When no branch applies the method returns \<open>None\<close>.
\<close>

definition handle_other ::
  "'o collab \<Rightarrow> string \<Rightarrow> json \<Rightarrow> json \<Rightarrow> 'o client \<Rightarrow> 'o client result" where
  "handle_other co t obj update c =
    (if t = ''message_reply'' \<and> extra c ''on_message_reply'' then handle_message_reply co t obj c
     else if t = ''message_edit'' \<and> extra c ''on_message_edit'' then handle_message_edit co t obj c
     else if t = ''message_typing_state'' \<and> extra c ''on_message_typing_state''
       then create_task ''handle_message_typing_state'' t obj c
     else if t \<in> set [''message_allow'', ''message_deny'']
           \<and> any_extra c [''on_message_allow'', ''on_message_deny'']
       then create_task ''handle_message_allow'' t obj c
     else if t = ''photo_new'' \<and> extra c ''on_photo_new'' then create_task ''handle_photo_new'' t obj c
     else if t \<in> set [''photo_comment_new'', ''photo_comment_edit'', ''photo_comment_restore'']
           \<and> any_extra c [''on_photo_comment_new'', ''on_photo_comment_edit'', ''on_photo_comment_restore'']
       then create_task ''handle_photo_comment_new'' t obj c
     else if t = ''photo_comment_delete'' \<and> extra c ''on_photo_comment_delete''
       then create_task ''handle_photo_comment_delete'' t obj c
     else if t = ''audio_new'' \<and> extra c ''on_audio_new'' then create_task ''handle_audio_new'' t obj c
     else if t = ''video_new'' \<and> extra c ''on_video_new'' then create_task ''handle_video_new'' t obj c
     else if t \<in> set [''video_comment_new'', ''video_comment_edit'', ''video_comment_restore'']
           \<and> any_extra c [''on_video_comment_new'', ''on_video_comment_edit'', ''on_video_comment_restore'']
       then handle_video_comment_new co t obj c
     else if t = ''video_comment_delete'' \<and> extra c ''on_video_comment_delete''
       then create_task ''handle_video_comment_delete'' t obj c
     else if t \<in> set [''wall_post_new'', ''wall_repost'']
           \<and> any_extra c [''on_wall_post_new'', ''on_wall_repost'']
       then create_task ''handle_wall_post_new'' t obj c
     else if t \<in> set [''wall_reply_new'', ''wall_reply_edit'', ''wall_reply_restore'']
           \<and> any_extra c [''on_wall_reply_new'', ''on_wall_reply_edit'', ''on_wall_reply_restore'']
       then create_task ''handle_wall_reply_new'' t obj c
     else if t = ''wall_reply_delete'' \<and> extra c ''on_wall_reply_delete''
       then create_task ''handle_wall_reply_delete'' t obj c
     else if t \<in> set [''board_post_new'', ''board_post_edit'', ''board_post_restore'']
           \<and> any_extra c [''on_board_post_new'', ''on_board_post_edit'', ''on_board_post_restore'']
       then create_task ''handle_board_post_new'' t obj c
     else if t = ''board_post_delete'' \<and> extra c ''on_board_post_delete''
       then create_task ''handle_board_post_delete'' t obj c
     else if t \<in> set [''market_comment_new'', ''market_comment_edit'', ''market_comment_restore'']
           \<and> any_extra c [''on_market_comment_new'', ''on_market_comment_edit'', ''on_market_comment_restore'']
       then create_task ''handle_market_comment_new'' t obj c
     else if t = ''market_comment_delete'' \<and> extra c ''on_market_comment_delete''
       then create_task ''handle_market_comment_delete'' t obj c
     else if t = ''group_leave'' \<and> extra c ''on_group_leave'' then create_task ''handle_group_leave'' t obj c
     else if t = ''group_join'' \<and> extra c ''on_group_join'' then create_task ''handle_group_join'' t obj c
     else if t = ''user_block'' \<and> extra c ''on_user_block'' then create_task ''handle_user_block'' t obj c
     else if t = ''user_unblock'' \<and> extra c ''on_user_unblock'' then create_task ''handle_user_unblock'' t obj c
     else if t = ''poll_vote_new'' \<and> extra c ''on_poll_vote_new'' then create_task ''handle_poll_vote_new'' t obj c
     else if t = ''group_officers_edit'' \<and> extra c ''on_group_officers_edit''
       then create_task ''handle_group_officers_edit'' t obj c
     else if t \<notin> set implemented_events \<and> extra c ''on_unknown'' then dispatch ''unknown'' [Raw update] c
     else Ok c)"

text \<open>
  \<open>Client.handle_update\<close>. A type that is not a string equals none of the names, so only
  the last branch of the chain can apply to it.
\<close>

definition handle_update :: "'o collab \<Rightarrow> json \<Rightarrow> 'o client \<Rightarrow> 'o client result" where
  "handle_update co update c =
     (case subscript update ''type'' of
        Inl e \<Rightarrow> Raise e c
      | Inr t \<Rightarrow>
          if t = JStr ''message_new'' then
            (case subscript update ''object'' of
               Inl e \<Rightarrow> Raise e c
             | Inr ob \<Rightarrow>
                 (case subscript ob ''message'' of
                    Inl e \<Rightarrow> Raise e c
                  | Inr message \<Rightarrow> handle_message co message c))
          else
            (case subscript update ''object'' of
               Inl e \<Rightarrow> Raise e c
             | Inr obj \<Rightarrow>
                 (case t of
                    JStr name \<Rightarrow> handle_other co name obj update c
                  | _ \<Rightarrow> if extra c ''on_unknown'' then dispatch ''unknown'' [Raw update] c else Ok c)))"

text \<open>The loop \<open>for update in updates: self.handle_update(update)\<close> of \<open>Client._run\<close>.\<close>

fun handle_batch :: "'o collab \<Rightarrow> json list \<Rightarrow> 'o client \<Rightarrow> 'o client result" where
  "handle_batch co [] c = Ok c"
| "handle_batch co (update # rest) c =
     (case handle_update co update c of
        Raise e c' \<Rightarrow> Raise e c'
      | Ok c' \<Rightarrow> handle_batch co rest c')"

subsection \<open>The coroutines started by \<open>handle_update\<close>\<close>



section \<open>\<open>Client._run_event\<close>\<close>

text \<open>
  The wrapper that \<open>_schedule_event\<close> puts around a handler. The trace \<open>hook_calls\<close> lists
  the calls of \<open>on_error\<close>; \<open>finished\<close> is how the wrapper itself ends.
\<close>

record 'o event_run =
  hook_calls :: "(string \<times> 'o val list) list"
  finished :: outcome

definition run_event ::
  "('o val list \<Rightarrow> outcome) \<Rightarrow> (string \<Rightarrow> 'o val list \<Rightarrow> outcome) \<Rightarrow> string \<Rightarrow> 'o val list
     \<Rightarrow> 'o event_run" where
  "run_event coro on_error event_name args =
     (case coro args of
        Returns \<Rightarrow> \<lparr> hook_calls = [], finished = Returns \<rparr>
      | Cancels \<Rightarrow> \<lparr> hook_calls = [], finished = Returns \<rparr>
      | Raises e \<Rightarrow>
          (case on_error event_name args of
             Returns \<Rightarrow> \<lparr> hook_calls = [(event_name, args)], finished = Returns \<rparr>
           | Cancels \<Rightarrow> \<lparr> hook_calls = [(event_name, args)], finished = Returns \<rparr>
           | Raises e' \<Rightarrow> \<lparr> hook_calls = [(event_name, args)], finished = Raises e' \<rparr>))"

text \<open>Running the task that \<open>dispatch\<close> queued for the method \<open>method\<close>.\<close>

definition run_handler :: "'o collab \<Rightarrow> string \<Rightarrow> 'o val list \<Rightarrow> 'o event_run" where
  "run_handler co method args = run_event (method_body co method) (on_error_body co) method args"

section \<open>Requests\<close>

text \<open>
  The network is a script: the answers that the successive HTTP requests will get, each
  either a body or an exception raised inside \<open>session.get\<close>/\<open>session.post\<close>, and the list
  of the URLs requested so far. A function that needs an answer when the script is used
  up has no result (\<open>None\<close>). Parameters of requests, the pauses between tries and the
  diagnostic prints of \<open>general_request\<close> are not modelled.
\<close>

datatype attempt = Responds json | Breaks exn

record net =
  script :: "attempt list"
  sent :: "json list"

text \<open>
  \<open>Client.general_request\<close>: \<open>for tries in range(5)\<close>, with every \<open>Exception\<close> of a try
  caught inside the loop. When the loop ends the function returns \<open>None\<close>. No exception
  leaves it; the result is a sum all the same, as \<open>longpoll\<close> has an \<open>except\<close> for it.
\<close>

fun request_tries :: "nat \<Rightarrow> json \<Rightarrow> net \<Rightarrow> ((exn + json) \<times> net) option" where
  "request_tries 0 url n = Some (Inr JNull, n)"
| "request_tries (Suc k) url n =
     (case script n of
        [] \<Rightarrow> None
      | a # rest \<Rightarrow>
          (case a of
             Responds body \<Rightarrow> Some (Inr body, n\<lparr> script := rest, sent := sent n @ [url] \<rparr>)
           | Breaks e \<Rightarrow> request_tries k url (n\<lparr> script := rest, sent := sent n @ [url] \<rparr>)))"

definition general_request :: "json \<Rightarrow> net \<Rightarrow> ((exn + json) \<times> net) option" where
  "general_request url n = request_tries 5 url n"

definition api_url :: "string \<Rightarrow> json" where
  "api_url method = JStr (''https://api.vk.com/method/'' @ method)"

text \<open>
  \<open>Client.vk_request\<close>: the request is repeated while the answer is error 6, or error 10
  with the message about the access token.
\<close>

function vk_request :: "string \<Rightarrow> net \<Rightarrow> ((exn + json) \<times> net) option" where
  "vk_request method n =
     (case general_request (api_url method) n of
        None \<Rightarrow> None
      | Some (Inl e, n') \<Rightarrow> Some (Inl e, n')
      | Some (Inr res, n') \<Rightarrow>
          (case py_get res ''error'' JNull of
             Inl e \<Rightarrow> Some (Inl e, n')
           | Inr error \<Rightarrow>
               if truthy error then
                 (case py_get error ''error_code'' JNull of
                    Inl e \<Rightarrow> Some (Inl e, n')
                  | Inr code \<Rightarrow>
                      if code = JInt 6 then vk_request method n'
                      else if code = JInt 10 then
                        (case py_get error ''error_msg'' (JStr []) of
                           Inl e \<Rightarrow> Some (Inl e, n')
                         | Inr msg \<Rightarrow>
                             (case py_contains ''could not check access_token now'' msg of
                                Inl e \<Rightarrow> Some (Inl e, n')
                              | Inr found \<Rightarrow>
                                  if found then vk_request method n' else Some (Inr res, n')))
                      else Some (Inr res, n'))
               else Some (Inr res, n')))"
  by pat_completeness auto
termination
proof -
  have le: "request_tries k url n = Some (r, n') \<Longrightarrow> length (script n') \<le> length (script n)"
    for k url n r n'
    by (induction k url n rule: request_tries.induct)
       (auto split: list.splits attempt.splits)
  have less: "general_request url n = Some (r, n') \<Longrightarrow> length (script n') < length (script n)"
    for url n r n'
    using le [of 4 url _ r n']
    by (auto simp: general_request_def eval_nat_numeral split: list.splits attempt.splits)
  show ?thesis
  proof (relation "measure (\<lambda>(method, n). length (script n))", goal_cases)
    case 1
    show ?case by simp
  next
    case 2
    then show ?case by (auto dest: less)
  next
    case 3
    then show ?case by (auto dest: less)
  qed
qed


declare vk_request.simps [simp del]

text \<open>\<open>Client.enable_longpoll\<close>: one API call, whose answer is returned as it is.\<close>

definition enable_longpoll :: "net \<Rightarrow> ((exn + json) \<times> net) option" where
  "enable_longpoll n = vk_request ''groups.setLongPollSettings'' n"

text \<open>
  The last statements of \<open>get_longpoll_server\<close>: \<open>self.key\<close>, \<open>self.server\<close> and \<open>ts\<close> are
  read from \<open>res['response']\<close> one after the other, so an exception leaves the
  assignments made before it in place.
\<close>

definition adopt_server :: "json \<Rightarrow> 'o client \<Rightarrow> (exn + json) \<times> 'o client" where
  "adopt_server res c =
     (case subscript res ''response'' of
        Inl e \<Rightarrow> (Inl e, c)
      | Inr r \<Rightarrow>
          (case subscript r ''key'' of
             Inl e \<Rightarrow> (Inl e, c)
           | Inr k \<Rightarrow>
               (case subscript r ''server'' of
                  Inl e \<Rightarrow> (Inl e, c\<lparr> key := k \<rparr>)
                | Inr (JStr s) \<Rightarrow>
                    (case subscript r ''ts'' of
                       Inl e \<Rightarrow> (Inl e, c\<lparr> key := k, server := JStr (unescape s) \<rparr>)
                     | Inr ts \<Rightarrow> (Inr ts, c\<lparr> key := k, server := JStr (unescape s) \<rparr>))
                | Inr _ \<Rightarrow> (Inl AttributeError, c\<lparr> key := k \<rparr>))))"

text \<open>
  The \<open>VKApiError\<close> raised for an error other than 100. Its message is formatted from
  \<open>error['error_code']\<close> and \<open>error['error_msg']\<close>; a missing key is a \<open>KeyError\<close> instead.
\<close>

definition api_error :: "json \<Rightarrow> exn" where
  "api_error error =
     (case subscript error ''error_code'' of
        Inl e \<Rightarrow> e
      | Inr code \<Rightarrow>
          (case subscript error ''error_msg'' of
             Inl e \<Rightarrow> e
           | Inr msg \<Rightarrow> VKApiError ''[{error_code}]{error_msg}'' [code, msg]))"

definition longpoll_disabled :: exn where
  "longpoll_disabled =
     VKApiError ''Longpoll is disabled for this group. Enable longpoll or try force mode'' []"

function get_longpoll_server :: "'o client \<Rightarrow> net \<Rightarrow> ((exn + json) \<times> 'o client \<times> net) option" where
  "get_longpoll_server c n =
     (case vk_request ''groups.getLongPollServer'' n of
        None \<Rightarrow> None
      | Some (Inl e, n1) \<Rightarrow> Some (Inl e, c, n1)
      | Some (Inr res, n1) \<Rightarrow>
          (case py_get res ''error'' JNull of
             Inl e \<Rightarrow> Some (Inl e, c, n1)
           | Inr error \<Rightarrow>
               if truthy error then
                 (case subscript error ''error_code'' of
                    Inl e \<Rightarrow> Some (Inl e, c, n1)
                  | Inr code \<Rightarrow>
                      if code = JInt 100 then
                        (if force c then
                           (case enable_longpoll n1 of
                              None \<Rightarrow> None
                            | Some (Inl e, n2) \<Rightarrow> Some (Inl e, c, n2)
                            | Some (Inr _, n2) \<Rightarrow> get_longpoll_server c n2)
                         else Some (Inl longpoll_disabled, c, n1))
                      else Some (Inl (api_error error), c, n1))
               else (case adopt_server res c of (r, c') \<Rightarrow> Some (r, c', n1))))"
  by pat_completeness auto
termination
proof -
  have le: "request_tries k url n = Some (r, n') \<Longrightarrow> length (script n') \<le> length (script n)"
    for k url n r n'
    by (induction k url n rule: request_tries.induct)
       (auto split: list.splits attempt.splits)
  have less: "general_request url n = Some (r, n') \<Longrightarrow> length (script n') < length (script n)"
    for url n r n'
    using le [of 4 url _ r n']
    by (auto simp: general_request_def eval_nat_numeral split: list.splits attempt.splits)
  have vk: "vk_request m n = Some (r, n') \<Longrightarrow> length (script n') < length (script n)"
    for m n r n'
  proof (induction m n rule: vk_request.induct)
    case (1 meth n)
    from "1.prems" obtain x n1 where g: "general_request (api_url meth) n = Some (x, n1)"
      by (subst (asm) vk_request.simps) (auto split: option.splits)
    have l1: "length (script n1) < length (script n)"
      using less [OF g] .
    have "n' = n1 \<or> vk_request meth n1 = Some (r, n') \<and> length (script n') < length (script n1)"
    proof (cases "vk_request meth n1 = Some (r, n') \<and> n' \<noteq> n1")
      case False
      with "1.prems" g show ?thesis
        by (subst (asm) vk_request.simps) (auto split: sum.splits if_splits)
    next
      case True
      with "1.prems" g "1.IH" [OF g refl] show ?thesis
        by (subst (asm) vk_request.simps) (auto split: sum.splits if_splits)
    qed
    with l1 show ?case by auto
  qed
  show ?thesis
  proof (relation "measure (\<lambda>(c, n). length (script n))", goal_cases)
    case 1
    show ?case by simp
  next
    case 2
    then show ?case by (auto simp: enable_longpoll_def dest!: vk)
  qed
qed

declare get_longpoll_server.simps [simp del]

section \<open>Polling\<close>

text \<open>\<open>updates = res.get('updates', [])\<close> and \<open>return ts, updates\<close>.\<close>

definition poll_result ::
  "json \<Rightarrow> json \<Rightarrow> 'o client \<Rightarrow> net \<Rightarrow> ((exn + json \<times> json) \<times> 'o client \<times> net) option" where
  "poll_result ts res c n =
     (case py_get res ''updates'' (JList []) of
        Inl e \<Rightarrow> Some (Inl e, c, n)
      | Inr updates \<Rightarrow> Some (Inr (ts, updates), c, n))"

text \<open>\<open>Client.longpoll\<close>. The URL of the request is \<open>self.server\<close>.\<close>

definition longpoll ::
  "json \<Rightarrow> 'o client \<Rightarrow> net \<Rightarrow> ((exn + json \<times> json) \<times> 'o client \<times> net) option" where
  "longpoll ts c n =
     (case general_request (server c) n of
        None \<Rightarrow> None
      | Some (Inl e, n1) \<Rightarrow>
          if e = TimeoutError then Some (Inr (ts, JList []), c, n1) else Some (Inl e, c, n1)
      | Some (Inr res, n1) \<Rightarrow>
          (case has_key res ''ts'' of
             Inl e \<Rightarrow> Some (Inl e, c, n1)
           | Inr has_ts \<Rightarrow>
               (case (if \<not> has_ts then Inr True else has_key res ''failed'') of
                  Inl e \<Rightarrow> Some (Inl e, c, n1)
                | Inr renew \<Rightarrow>
                    if renew then
                      (case get_longpoll_server c n1 of
                         None \<Rightarrow> None
                       | Some (Inl e, c2, n2) \<Rightarrow> Some (Inl e, c2, n2)
                       | Some (Inr ts', c2, n2) \<Rightarrow> poll_result ts' res c2 n2)
                    else
                      (case subscript res ''ts'' of
                         Inl e \<Rightarrow> Some (Inl e, c, n1)
                       | Inr ts' \<Rightarrow> poll_result ts' res c n1))))"

section \<open>The loop of \<open>Client._run\<close>\<close>

text \<open>
  The state of the loop is \<open>ts\<close>, \<open>updates\<close> and the client. A step of \<open>_run\<close> ends either
  with the next state of the loop, or with an exception that leaves \<open>_run\<close> (\<open>Inl\<close>).

  The \<open>except Exception\<close> clause of the loop: the exception is printed and the session is
  negotiated again. The clause assigns \<open>ts\<close> only, so \<open>updates\<close> keeps its value.
\<close>

type_synonym 'o loop_state = "json \<times> json \<times> 'o client"

definition recover ::
  "exn \<Rightarrow> json \<Rightarrow> json \<Rightarrow> 'o client \<Rightarrow> net \<Rightarrow> ((exn \<times> 'o client + 'o loop_state) \<times> net) option" where
  "recover e ts updates c n =
     (case get_longpoll_server (c\<lparr> reported := reported c @ [e] \<rparr>) n of
        None \<Rightarrow> None
      | Some (Inl e', c', n') \<Rightarrow> Some (Inl (e', c'), n')
      | Some (Inr ts', c', n') \<Rightarrow> Some (Inr (ts', updates, c'), n'))"

text \<open>
  One turn of \<open>while True\<close>. The poll task is created first and awaited after the batch
  of the previous poll has been handled; \<open>handle_update\<close> never suspends, so the request
  of the poll goes out after the batch. When the batch raises, the poll task is left
  behind, and the script gives it no answer. The tasks that the batch queued stay in
  \<open>tasks\<close>: what they do when they run is \<open>run_hydration\<close> and \<open>run_handler\<close>.
\<close>

definition run_cycle ::
  "'o collab \<Rightarrow> 'o loop_state \<Rightarrow> net \<Rightarrow> ((exn \<times> 'o client + 'o loop_state) \<times> net) option" where
  "run_cycle co st n =
     (case st of (ts, updates, c) \<Rightarrow>
        (case (case py_iter updates of Inl e \<Rightarrow> Raise e c | Inr us \<Rightarrow> handle_batch co us c) of
           Raise e c1 \<Rightarrow> recover e ts updates c1 n
         | Ok c1 \<Rightarrow>
             (case longpoll ts c1 n of
                None \<Rightarrow> None
              | Some (Inl e, c2, n2) \<Rightarrow> recover e ts updates c2 n2
              | Some (Inr (ts', updates'), c2, n2) \<Rightarrow> Some (Inr (ts', updates', c2), n2))))"


section \<open>Notions used in the statements\<close>

text \<open>
  What one turn of the waiter loop does to the future of a waiter, and whether the turn
  puts the waiter's index into \<open>removed\<close>.
\<close>

definition settle :: "'o val list \<Rightarrow> 'o check \<Rightarrow> 'o fstate \<Rightarrow> 'o fstate" where
  "settle args chk st =
     (if st = Pending
      then (case chk args of Inl e \<Rightarrow> Failed e | Inr b \<Rightarrow> if b then Finished (result_value args) else Pending)
      else st)"

definition leaves :: "'o val list \<Rightarrow> (fid \<Rightarrow> 'o fstate) \<Rightarrow> 'o waiter \<Rightarrow> bool" where
  "leaves args fs w = (fs (fst w) = Cancelled \<or> (case snd w args of Inl e \<Rightarrow> True | Inr b \<Rightarrow> b))"

text \<open>The waiters registered for an event, in the order of their registration.\<close>

definition entries :: "'o client \<Rightarrow> string \<Rightarrow> 'o waiter list" where
  "entries c event = (case listeners c event of None \<Rightarrow> [] | Some ls \<Rightarrow> ls)"

text \<open>
  What \<open>wait_for\<close> and \<open>dispatch\<close> keep true of a list of the registry: each waiter has a
  future of its own, and a future that is still registered is pending or cancelled.
\<close>

definition waiters_ok :: "(fid \<Rightarrow> 'o fstate) \<Rightarrow> 'o waiter list \<Rightarrow> bool" where
  "waiters_ok fs ls =
     (distinct (map fst ls) \<and> list_all (\<lambda>w. fs (fst w) = Pending \<or> fs (fst w) = Cancelled) ls)"

text \<open>The waiters of an event that a dispatch with the arguments \<open>args\<close> keeps.\<close>

definition remaining :: "'o val list \<Rightarrow> 'o client \<Rightarrow> string \<Rightarrow> 'o waiter list" where
  "remaining args c event = filter (\<lambda>w. \<not> leaves args (futures c) w) (entries c event)"

text \<open>A fresh client after \<open>wait_for('Ready')\<close>, and after a second wait for \<open>ready\<close>.\<close>

definition one_waiter :: "fid \<times> unit client" where
  "one_waiter = wait_for ''Ready'' None (new_client False [] [])"

definition two_waiters :: "unit client" where
  "two_waiters = snd (wait_for ''ready'' None (snd one_waiter))"

text \<open>
  The invariant of the registry: no event name is mapped to an empty list, every list
  is as above, every registered future has been allocated, and no future is registered
  under two names. It holds of a new client and is kept by \<open>wait_for\<close>, by the expiry of a
  timeout and by \<open>dispatch\<close>.
\<close>

definition reg_inv :: "'o client \<Rightarrow> bool" where
  "reg_inv c =
     (\<forall>event. listeners c event \<noteq> Some []
        \<and> waiters_ok (futures c) (entries c event)
        \<and> (\<forall>w \<in> set (entries c event). fst w < next_fid c)
        \<and> (\<forall>other. other \<noteq> event \<longrightarrow>
              fst ` set (entries c event) \<inter> fst ` set (entries c other) = {}))"

text \<open>
  The handler names whose presence in \<open>extra_events\<close> opens the branch of \<open>handle_update\<close>
  for the update type \<open>t\<close>: the types that share one \<open>handle_*\<close> method share its names.
\<close>

definition gate_names :: "string \<Rightarrow> string list" where
  "gate_names t =
     (if t \<in> set [''message_allow'', ''message_deny'']
        then [''on_message_allow'', ''on_message_deny'']
      else if t \<in> set [''photo_comment_new'', ''photo_comment_edit'', ''photo_comment_restore'']
        then [''on_photo_comment_new'', ''on_photo_comment_edit'', ''on_photo_comment_restore'']
      else if t \<in> set [''video_comment_new'', ''video_comment_edit'', ''video_comment_restore'']
        then [''on_video_comment_new'', ''on_video_comment_edit'', ''on_video_comment_restore'']
      else if t \<in> set [''wall_post_new'', ''wall_repost'']
        then [''on_wall_post_new'', ''on_wall_repost'']
      else if t \<in> set [''wall_reply_new'', ''wall_reply_edit'', ''wall_reply_restore'']
        then [''on_wall_reply_new'', ''on_wall_reply_edit'', ''on_wall_reply_restore'']
      else if t \<in> set [''board_post_new'', ''board_post_edit'', ''board_post_restore'']
        then [''on_board_post_new'', ''on_board_post_edit'', ''on_board_post_restore'']
      else if t \<in> set [''market_comment_new'', ''market_comment_edit'', ''market_comment_restore'']
        then [''on_market_comment_new'', ''on_market_comment_edit'', ''on_market_comment_restore'']
      else if t \<in> set implemented_events then [''on_'' @ t]
      else [''on_unknown''])"

text \<open>Collaborators that always succeed, with objects that carry nothing.\<close>

definition plain_collab :: "unit collab" where
  "plain_collab =
     \<lparr> build_msg = (\<lambda>_. Inr ()), action_type = (\<lambda>_. None), get_video_comment = (\<lambda>_. Inr ()),
       awaited = (\<lambda>_ _. Inr ()), method_body = (\<lambda>_ _. Returns), on_error_body = (\<lambda>_ _. Returns) \<rparr>"


definition deny_update :: json where
  "deny_update = JObj [(''type'', JStr ''message_deny''), (''object'', JObj [(''user_id'', JInt 7)])]"

text \<open>
  The update types that \<open>handle_update\<close> serves with an \<open>async def\<close> method, each with the
  method that serves it.
\<close>

definition spawned_types :: "(string \<times> string) list" where
  "spawned_types =
     [(''message_typing_state'', ''handle_message_typing_state''),
      (''message_allow'', ''handle_message_allow''),
      (''message_deny'', ''handle_message_allow''),
      (''photo_new'', ''handle_photo_new''),
      (''photo_comment_new'', ''handle_photo_comment_new''),
      (''photo_comment_edit'', ''handle_photo_comment_new''),
      (''photo_comment_restore'', ''handle_photo_comment_new''),
      (''photo_comment_delete'', ''handle_photo_comment_delete''),
      (''audio_new'', ''handle_audio_new''),
      (''video_new'', ''handle_video_new''),
      (''video_comment_delete'', ''handle_video_comment_delete''),
      (''wall_post_new'', ''handle_wall_post_new''),
      (''wall_repost'', ''handle_wall_post_new''),
      (''wall_reply_new'', ''handle_wall_reply_new''),
      (''wall_reply_edit'', ''handle_wall_reply_new''),
      (''wall_reply_restore'', ''handle_wall_reply_new''),
      (''wall_reply_delete'', ''handle_wall_reply_delete''),
      (''board_post_new'', ''handle_board_post_new''),
      (''board_post_edit'', ''handle_board_post_new''),
      (''board_post_restore'', ''handle_board_post_new''),
      (''board_post_delete'', ''handle_board_post_delete''),
      (''market_comment_new'', ''handle_market_comment_new''),
      (''market_comment_edit'', ''handle_market_comment_new''),
      (''market_comment_restore'', ''handle_market_comment_new''),
      (''market_comment_delete'', ''handle_market_comment_delete''),
      (''group_leave'', ''handle_group_leave''),
      (''group_join'', ''handle_group_join''),
      (''user_block'', ''handle_user_block''),
      (''user_unblock'', ''handle_user_unblock''),
      (''poll_vote_new'', ''handle_poll_vote_new''),
      (''group_officers_edit'', ''handle_group_officers_edit'')]"

text \<open>The event that \<open>handle_message\<close> dispatches for a message.\<close>

definition message_event :: "'o collab \<Rightarrow> json \<Rightarrow> 'o \<Rightarrow> string" where
  "message_event co payload msg =
     (if truthy payload \<and> payload = JStr start_payload then ''conversation_start''
      else (case action_type co msg of Some atype \<Rightarrow> atype | None \<Rightarrow> ''message_new''))"

text \<open>A client that registered \<open>on_message_reply\<close>, with a waiter for \<open>message_reply\<close>.\<close>

definition reply_client :: "unit client" where
  "reply_client = snd (wait_for ''message_reply'' None (new_client False [''on_message_reply''] []))"

definition reply_update :: json where
  "reply_update = JObj [(''type'', JStr ''message_reply''), (''object'', JObj [(''text'', JStr ''hi'')])]"

text \<open>
  What \<open>handle_update\<close> dispatches for an update of type \<open>message_new\<close>, when the message
  can be read and built, and the handler task that this dispatch queues.
\<close>

definition message_dispatch :: "'o collab \<Rightarrow> json \<Rightarrow> (string \<times> 'o val list) option" where
  "message_dispatch co update =
     (case subscript update ''object'' of
        Inl e \<Rightarrow> None
      | Inr ob \<Rightarrow>
          (case subscript ob ''message'' of
             Inl e \<Rightarrow> None
           | Inr message \<Rightarrow>
               (case build_msg co message of
                  Inl e \<Rightarrow> None
                | Inr msg \<Rightarrow>
                    (case py_get message ''payload'' JNull of
                       Inl e \<Rightarrow> None
                     | Inr payload \<Rightarrow> Some (message_event co payload msg, [Obj msg])))))"

definition queued_handler :: "'o collab \<Rightarrow> 'o client \<Rightarrow> json \<Rightarrow> 'o task list" where
  "queued_handler co c update =
     (case message_dispatch co update of
        None \<Rightarrow> []
      | Some (event, args) \<Rightarrow>
          if ''on_'' @ event \<in> set (methods c) then [Handler_task (''on_'' @ event) args] else [])"

text \<open>Collaborators whose objects are the raw values themselves.\<close>

definition raw_collab :: "json collab" where
  "raw_collab =
     \<lparr> build_msg = Inr, action_type = (\<lambda>_. None), get_video_comment = Inr,
       awaited = (\<lambda>_. Inr), method_body = (\<lambda>_ _. Returns), on_error_body = (\<lambda>_ _. Returns) \<rparr>"

definition message_update :: "string \<Rightarrow> json" where
  "message_update text =
     JObj [(''type'', JStr ''message_new''),
           (''object'', JObj [(''message'', JObj [(''text'', JStr text)])])]"





text \<open>A network on which five requests in a row time out.\<close>

definition timeouts_net :: net where
  "timeouts_net =
     \<lparr> script = [Breaks TimeoutError, Breaks TimeoutError, Breaks TimeoutError,
                 Breaks TimeoutError, Breaks TimeoutError],
       sent = [] \<rparr>"

text \<open>A client after a negotiation.\<close>

definition polling_client :: "unit client" where
  "polling_client = new_client False [] [] \<lparr> key := JStr ''k1'', server := JStr ''https://lp.vk.com/wh1'' \<rparr>"




section \<open>Properties of \<open>dispatch\<close> and \<open>wait_for\<close>\<close>

lemma fold_del_index:
  "fold del_index (rev (map fst (filter (\<lambda>(i, w). Q w) (enumerate 0 xs)))) (xs @ ys)
     = filter (\<lambda>w. \<not> Q w) xs @ ys"
proof (induction xs arbitrary: ys rule: rev_induct)
  case Nil
  show ?case by simp
next
  case (snoc x xs)
  show ?case
  proof (cases "Q x")
    case True
    then show ?thesis
      using snoc [of ys] by (simp add: enumerate_append_eq del_index_def)
  next
    case False
    then show ?thesis
      using snoc [of "x # ys"] by (simp add: enumerate_append_eq)
  qed
qed

lemma waiter_loop_char:
  assumes "distinct (map (\<lambda>p. fst (snd p)) ies)"
    and "\<forall>(i, w) \<in> set ies. fs (fst w) = Pending \<or> fs (fst w) = Cancelled"
  shows "\<exists>fs'. waiter_loop args ies fs removed called =
           (None, fs',
            removed @ map fst (filter (\<lambda>(i, w). leaves args fs w) ies),
            called @ map (\<lambda>p. fst (snd p)) (filter (\<lambda>(i, w). fs (fst w) \<noteq> Cancelled) ies))
         \<and> (\<forall>g. g \<notin> (\<lambda>p. fst (snd p)) ` set ies \<longrightarrow> fs' g = fs g)
         \<and> (\<forall>(i, w) \<in> set ies. fs' (fst w) = settle args (snd w) (fs (fst w)))"
  using assms
proof (induction ies arbitrary: fs removed called)
  case Nil
  show ?case by simp
next
  case (Cons a ies)
  obtain i f chk where a: "a = (i, (f, chk))" by (cases a) auto
  have fresh: "f \<notin> (\<lambda>p. fst (snd p)) ` set ies" and dist: "distinct (map (\<lambda>p. fst (snd p)) ies)"
    using Cons.prems(1) by (auto simp: a)
  define fs1 where "fs1 = fs(f := settle args chk (fs f))"
  have same: "fs1 g = fs g" if "(j, g, k) \<in> set ies" for j g k
    using that fresh by (force simp: fs1_def)
  have ok1: "\<forall>(i, w) \<in> set ies. fs1 (fst w) = Pending \<or> fs1 (fst w) = Cancelled"
    using Cons.prems(2) same by (auto simp: a)
  have filt1: "filter (\<lambda>(i, w). leaves args fs1 w) ies = filter (\<lambda>(i, w). leaves args fs w) ies"
    by (rule filter_cong) (auto simp: leaves_def same)
  have filt2: "filter (\<lambda>(i, w). fs1 (fst w) \<noteq> Cancelled) ies = filter (\<lambda>(i, w). fs (fst w) \<noteq> Cancelled) ies"
    by (rule filter_cong) (auto simp: same)
  have head: "fs f = Pending \<or> fs f = Cancelled"
    using Cons.prems(2) by (simp add: a)
  have step: "waiter_loop args (a # ies) fs removed called =
      waiter_loop args ies fs1
        (if leaves args fs (f, chk) then removed @ [i] else removed)
        (if fs f \<noteq> Cancelled then called @ [f] else called)"
    using head
    by (auto simp: a fs1_def settle_def leaves_def set_result_def set_exception_def fun_upd_idem
             split: sum.splits)
  from Cons.IH [OF dist ok1, of "if leaves args fs (f, chk) then removed @ [i] else removed"
      "if fs f \<noteq> Cancelled then called @ [f] else called"]
  obtain fs' where
    loop: "waiter_loop args ies fs1
        (if leaves args fs (f, chk) then removed @ [i] else removed)
        (if fs f \<noteq> Cancelled then called @ [f] else called) =
        (None, fs',
         (if leaves args fs (f, chk) then removed @ [i] else removed)
           @ map fst (filter (\<lambda>(i, w). leaves args fs1 w) ies),
         (if fs f \<noteq> Cancelled then called @ [f] else called)
           @ map (\<lambda>p. fst (snd p)) (filter (\<lambda>(i, w). fs1 (fst w) \<noteq> Cancelled) ies))"
    and out: "\<forall>g. g \<notin> (\<lambda>p. fst (snd p)) ` set ies \<longrightarrow> fs' g = fs1 g"
    and ins: "\<forall>(i, w) \<in> set ies. fs' (fst w) = settle args (snd w) (fs1 (fst w))"
    by blast
  have "waiter_loop args (a # ies) fs removed called =
           (None, fs',
            removed @ map fst (filter (\<lambda>(i, w). leaves args fs w) (a # ies)),
            called @ map (\<lambda>p. fst (snd p)) (filter (\<lambda>(i, w). fs (fst w) \<noteq> Cancelled) (a # ies)))"
    unfolding step loop filt1 filt2 by (simp add: a)
  moreover have "\<forall>g. g \<notin> (\<lambda>p. fst (snd p)) ` set (a # ies) \<longrightarrow> fs' g = fs g"
    using out by (auto simp: a fs1_def)
  moreover have "\<forall>(i, w) \<in> set (a # ies). fs' (fst w) = settle args (snd w) (fs (fst w))"
  proof -
    have "fs' f = settle args chk (fs f)"
      using out fresh by (simp add: fs1_def)
    moreover have "fs' g = settle args k (fs g)" if "(j, g, k) \<in> set ies" for j g k
      using ins that same [OF that] by force
    ultimately show ?thesis by (auto simp: a)
  qed
  ultimately show ?case by blast
qed


lemma snd_filter_enumerate:
  "map snd (filter (\<lambda>(i, w). P w) (enumerate n ls)) = filter P ls"
  by (induction ls arbitrary: n) auto

lemma fst_snd_enumerate:
  "map (\<lambda>p. fst (snd p)) (enumerate n ls) = map fst ls"
  by (induction ls arbitrary: n) auto

lemma length_filter_enumerate:
  "length (filter (\<lambda>(i, w). P w) (enumerate n ls)) = length (filter P ls)"
  using arg_cong [OF snd_filter_enumerate, of length P n ls] by simp

lemma all_removed_iff:
  "length (filter (\<lambda>(i, w). P w) (enumerate 0 ls)) = length ls
     \<longleftrightarrow> filter (\<lambda>w. \<not> P w) ls = []"
proof -
  have "length (filter P ls) = length ls \<longleftrightarrow> length (filter (\<lambda>w. \<not> P w) ls) = 0"
    using sum_length_filter_compl [of P ls] by arith
  then show ?thesis by (simp add: length_filter_enumerate)
qed

lemma waiter_pass_char:
  assumes ok: "waiters_ok (futures c) (entries c event)"
    and nonempty: "listeners c event \<noteq> Some []"
  shows "\<exists>fs'. waiter_pass event args c =
           Ok (c\<lparr> futures := fs',
                  listeners := (listeners c)
                    (event := (if filter (\<lambda>w. \<not> leaves args (futures c) w) (entries c event) = []
                               then None
                               else Some (filter (\<lambda>w. \<not> leaves args (futures c) w) (entries c event)))) \<rparr>)
         \<and> (\<forall>g. g \<notin> fst ` set (entries c event) \<longrightarrow> fs' g = futures c g)
         \<and> (\<forall>w \<in> set (entries c event). fs' (fst w) = settle args (snd w) (futures c (fst w)))
         \<and> checked event args c = map fst (filter (\<lambda>w. futures c (fst w) \<noteq> Cancelled) (entries c event))"
proof (cases "listeners c event")
  case None
  then have "c\<lparr> futures := futures c, listeners := (listeners c)(event := None) \<rparr> = c"
    by (simp add: fun_upd_idem)
  with None show ?thesis
    by (intro exI [of _ "futures c"]) (simp add: waiter_pass_def checked_def entries_def)
next
  case (Some ls)
  with nonempty have ne: "ls \<noteq> []" by simp
  have ent: "entries c event = ls" by (simp add: entries_def Some)
  let ?ies = "enumerate 0 ls"
  have d: "distinct (map (\<lambda>p. fst (snd p)) ?ies)"
    using ok by (simp add: waiters_ok_def ent fst_snd_enumerate)
  have snds: "snd ` set ?ies = set ls"
    by (simp flip: set_map)
  have p: "\<forall>(i, w) \<in> set ?ies. futures c (fst w) = Pending \<or> futures c (fst w) = Cancelled"
  proof -
    have "futures c (fst w) = Pending \<or> futures c (fst w) = Cancelled" if "w \<in> snd ` set ?ies" for w
      using ok that unfolding snds by (simp add: waiters_ok_def ent list_all_iff)
    then show ?thesis by force
  qed
  from waiter_loop_char [OF d p, of args "[]" "[]"]
  obtain fs' where
    loop: "waiter_loop args ?ies (futures c) [] [] =
        (None, fs',
         map fst (filter (\<lambda>(i, w). leaves args (futures c) w) ?ies),
         map (\<lambda>p. fst (snd p)) (filter (\<lambda>(i, w). futures c (fst w) \<noteq> Cancelled) ?ies))"
    and out: "\<forall>g. g \<notin> (\<lambda>p. fst (snd p)) ` set ?ies \<longrightarrow> fs' g = futures c g"
    and ins: "\<forall>(i, w) \<in> set ?ies. fs' (fst w) = settle args (snd w) (futures c (fst w))"
    by auto
  have img: "(\<lambda>p. fst (snd p)) ` set ?ies = fst ` set ls"
    using arg_cong [OF fst_snd_enumerate, of set 0 ls] by simp
  have fold: "fold del_index (rev (map fst (filter (\<lambda>(i, w). leaves args (futures c) w) ?ies))) ls
      = filter (\<lambda>w. \<not> leaves args (futures c) w) ls"
    using fold_del_index [of "leaves args (futures c)" ls "[]"] by simp
  have called: "map (\<lambda>p. fst (snd p)) (filter (\<lambda>(i, w). futures c (fst w) \<noteq> Cancelled) ?ies)
      = map fst (filter (\<lambda>w. futures c (fst w) \<noteq> Cancelled) ls)"
    using arg_cong [OF snd_filter_enumerate, of "map fst" "\<lambda>w. futures c (fst w) \<noteq> Cancelled" 0 ls]
    by (simp add: comp_def)
  have 1: "waiter_pass event args c =
           Ok (c\<lparr> futures := fs',
                  listeners := (listeners c)
                    (event := (if filter (\<lambda>w. \<not> leaves args (futures c) w) ls = []
                               then None
                               else Some (filter (\<lambda>w. \<not> leaves args (futures c) w) ls))) \<rparr>)"
    using ne by (simp add: waiter_pass_def Some loop all_removed_iff fold)
  have 2: "\<forall>g. g \<notin> fst ` set ls \<longrightarrow> fs' g = futures c g"
    using out by (simp only: img)
  have 3: "\<forall>w \<in> set ls. fs' (fst w) = settle args (snd w) (futures c (fst w))"
  proof
    fix w assume "w \<in> set ls"
    then obtain i where "(i, w) \<in> set ?ies"
      unfolding snds [symmetric] by auto
    with ins show "fs' (fst w) = settle args (snd w) (futures c (fst w))" by auto
  qed
  have 4: "checked event args c = map fst (filter (\<lambda>w. futures c (fst w) \<noteq> Cancelled) ls)"
    using ne by (simp add: checked_def Some loop called)
  from 1 2 3 4 show ?thesis unfolding ent by blast
qed


lemma reg_inv_new_client: "reg_inv (new_client frc ex meths)"
  by (simp add: reg_inv_def new_client_def entries_def waiters_ok_def)

lemma entries_wait_for:
  "wait_for event check c = (f, c1) \<Longrightarrow>
   entries c1 name =
     (if name = lower event
      then entries c name @ [(f, case check of None \<Rightarrow> (\<lambda>_. Inr True) | Some g \<Rightarrow> g)]
      else entries c name)"
  by (auto simp: wait_for_def entries_def Let_def split: option.splits)

lemma wait_for_fields:
  "wait_for event check c = (f, c1) \<Longrightarrow>
   f = next_fid c \<and> next_fid c1 = Suc (next_fid c) \<and> futures c1 = (futures c)(f := Pending)
   \<and> (\<forall>name. listeners c name \<noteq> Some [] \<longrightarrow> listeners c1 name \<noteq> Some [])"
  by (auto simp: wait_for_def Let_def split: option.splits if_splits)

lemma reg_inv_wait_for:
  assumes inv: "reg_inv c" and w: "wait_for event check c = (f, c1)"
  shows "reg_inv c1"
proof -
  note fld = wait_for_fields [OF w]
  note ent = entries_wait_for [OF w]
  have old: "fst w < f" if "w \<in> set (entries c name)" for w name
    using inv that fld by (auto simp: reg_inv_def)
  have fresh: "f \<notin> fst ` set (entries c name)" for name
    using old by force
  show ?thesis
    unfolding reg_inv_def
  proof (intro allI conjI impI)
    fix name
    show "listeners c1 name \<noteq> Some []"
      using fld inv by (simp add: reg_inv_def)
    have ok: "waiters_ok (futures c) (entries c name)"
      using inv by (simp add: reg_inv_def)
    show "waiters_ok (futures c1) (entries c1 name)"
      using ok fresh [of name] fld
      by (auto simp: ent waiters_ok_def list_all_iff)
    show "\<forall>w \<in> set (entries c1 name). fst w < next_fid c1"
      using old fld by (auto simp: ent less_Suc_eq)
    fix other assume ne: "other \<noteq> name"
    then have "fst ` set (entries c name) \<inter> fst ` set (entries c other) = {}"
      using inv by (auto simp: reg_inv_def)
    then show "fst ` set (entries c1 name) \<inter> fst ` set (entries c1 other) = {}"
      using ne fresh [of name] fresh [of other] by (auto simp: ent)
  qed
qed

lemma timeout_fields:
  "timeout_elapses f c = (r, c2) \<Longrightarrow>
   listeners c2 = listeners c \<and> next_fid c2 = next_fid c
   \<and> futures c2 = (futures c)(f := (if futures c f = Pending then Cancelled else futures c f))
   \<and> (futures c f = Pending \<longrightarrow> r = Wait_fails TimeoutError)"
  by (auto simp: timeout_elapses_def fun_upd_idem split: fstate.splits)

lemma reg_inv_timeout:
  assumes inv: "reg_inv c" and t: "timeout_elapses f c = (r, c2)"
  shows "reg_inv c2"
proof -
  note fld = timeout_fields [OF t]
  have ent: "entries c2 name = entries c name" for name
    using fld by (simp add: entries_def)
  show ?thesis
    using inv fld unfolding reg_inv_def ent
    by (auto simp: waiters_ok_def list_all_iff)
qed


lemma dispatch_char:
  assumes ok: "waiters_ok (futures c) (entries c event)"
    and nonempty: "listeners c event \<noteq> Some []"
  shows "\<exists>c'. dispatch event args c = Ok c'
         \<and> listeners c' = (listeners c)
              (event := (if remaining args c event = [] then None else Some (remaining args c event)))
         \<and> (\<forall>g. g \<notin> fst ` set (entries c event) \<longrightarrow> futures c' g = futures c g)
         \<and> (\<forall>w \<in> set (entries c event). futures c' (fst w) = settle args (snd w) (futures c (fst w)))
         \<and> next_fid c' = next_fid c
         \<and> tasks c' = tasks c @ (if ''on_'' @ event \<in> set (methods c)
                                   then [Handler_task (''on_'' @ event) args] else [])
         \<and> checked event args c = map fst (filter (\<lambda>w. futures c (fst w) \<noteq> Cancelled) (entries c event))"
proof -
  from waiter_pass_char [OF ok nonempty, of args]
  obtain fs' where
    wp: "waiter_pass event args c =
           Ok (c\<lparr> futures := fs',
                  listeners := (listeners c)
                    (event := (if remaining args c event = [] then None
                               else Some (remaining args c event))) \<rparr>)"
    and out: "\<forall>g. g \<notin> fst ` set (entries c event) \<longrightarrow> fs' g = futures c g"
    and ins: "\<forall>w \<in> set (entries c event). fs' (fst w) = settle args (snd w) (futures c (fst w))"
    and chk: "checked event args c = map fst (filter (\<lambda>w. futures c (fst w) \<noteq> Cancelled) (entries c event))"
    unfolding remaining_def by blast
  show ?thesis
    using out ins chk by (simp add: dispatch_def wp)
qed

lemma entries_after:
  "listeners c' = (listeners c)(event := (if ws = [] then None else Some ws)) \<Longrightarrow>
   entries c' name = (if name = event then ws else entries c name)"
  by (simp add: entries_def)

lemma settle_kept:
  assumes "\<not> leaves args fs w" "fs (fst w) = Pending \<or> fs (fst w) = Cancelled"
  shows "settle args (snd w) (fs (fst w)) = Pending"
  using assms by (auto simp: leaves_def settle_def split: sum.splits)

lemma reg_inv_dispatch:
  assumes inv: "reg_inv c" and d: "dispatch event args c = Ok c'"
  shows "reg_inv c'"
proof -
  have ok: "waiters_ok (futures c) (entries c name)" for name
    using inv by (simp add: reg_inv_def)
  have ne: "listeners c name \<noteq> Some []" for name
    using inv by (simp add: reg_inv_def)
  have disj: "fst ` set (entries c name) \<inter> fst ` set (entries c other) = {}" if "other \<noteq> name" for name other
    using inv that by (simp add: reg_inv_def)
  from dispatch_char [OF ok ne, of event args] d
  have lis: "listeners c' = (listeners c)
              (event := (if remaining args c event = [] then None else Some (remaining args c event)))"
    and out: "\<forall>g. g \<notin> fst ` set (entries c event) \<longrightarrow> futures c' g = futures c g"
    and ins: "\<forall>w \<in> set (entries c event). futures c' (fst w) = settle args (snd w) (futures c (fst w))"
    and nxt: "next_fid c' = next_fid c"
    by auto
  note ent = entries_after [OF lis]
  have sub: "set (remaining args c event) \<subseteq> set (entries c event)"
    by (auto simp: remaining_def)
  have st: "futures c' (fst w) = Pending \<or> futures c' (fst w) = Cancelled"
    if "w \<in> set (entries c' name)" for w name
  proof (cases "name = event")
    case True
    with that have w: "w \<in> set (entries c event)" "\<not> leaves args (futures c) w"
      by (auto simp: ent remaining_def)
    have "futures c (fst w) = Pending \<or> futures c (fst w) = Cancelled"
      using ok [of event] w(1) by (auto simp: waiters_ok_def list_all_iff)
    from settle_kept [OF w(2) this] ins w(1) show ?thesis by auto
  next
    case False
    with that have w: "w \<in> set (entries c name)" by (simp add: ent)
    with disj [of event name] False have "fst w \<notin> fst ` set (entries c event)" by auto
    with out have "futures c' (fst w) = futures c (fst w)" by simp
    with ok [of name] w show ?thesis by (auto simp: waiters_ok_def list_all_iff)
  qed
  show ?thesis
    unfolding reg_inv_def
  proof (intro allI conjI impI)
    fix name
    show "listeners c' name \<noteq> Some []"
      using ne [of name] by (simp add: lis)
    have "distinct (map fst (entries c' name))"
      using ok [of name] ok [of event] by (auto simp: ent waiters_ok_def remaining_def distinct_map_filter)
    then show "waiters_ok (futures c') (entries c' name)"
      using st [of _ name] by (auto simp: waiters_ok_def list_all_iff)
    have bound: "fst w < next_fid c" if "w \<in> set (entries c nm)" for w nm
      using inv that by (simp add: reg_inv_def)
    show "\<forall>w \<in> set (entries c' name). fst w < next_fid c'"
      using sub bound by (auto simp: ent nxt)
    fix other assume "other \<noteq> name"
    from disj [OF this] sub
    show "fst ` set (entries c' name) \<inter> fst ` set (entries c' other) = {}"
      by (auto simp: ent)
  qed
qed






lemma lower_ready: "lower ''Ready'' = ''ready''" "lower ''ready'' = ''ready''"
  by (simp_all add: lower_def lower_char_def)

lemma two_waiters_fields:
  "entries two_waiters ''ready'' = [(0, \<lambda>_. Inr True), (Suc 0, \<lambda>_. Inr True)]"
  "futures two_waiters 0 = Pending" "futures two_waiters (Suc 0) = Pending"
  "listeners two_waiters ''ready'' \<noteq> Some []"
  by (simp_all add: two_waiters_def one_waiter_def wait_for_def new_client_def entries_def lower_ready Let_def)



lemma not_leaves_iff:
  "(\<not> leaves args fs w) = (case w of (future, check) \<Rightarrow> fs future \<noteq> Cancelled \<and> check args = Inr False)"
  by (auto simp: leaves_def split: sum.splits prod.splits)

lemma remaining_eq:
  "remaining args c event =
     filter (\<lambda>(future, check). futures c future \<noteq> Cancelled \<and> check args = Inr False) (entries c event)"
  unfolding remaining_def not_leaves_iff ..

lemma reg_inv_two_waiters: "reg_inv two_waiters"
  unfolding two_waiters_def one_waiter_def
  by (intro reg_inv_wait_for [OF _ surjective_pairing] reg_inv_new_client)

text \<open>
  Claim C9. After a call of \<open>dispatch\<close> the registry maps no event name to an empty list:
  when the pass removes every waiter of the dispatched event the key is dropped, and
  otherwise the waiters that stay keep the order of their registration.
\<close>

theorem dispatch_leaves_no_empty_list:
  assumes "reg_inv c"
  shows "\<exists>c'. dispatch event args c = Ok c' \<and> reg_inv c' \<and>
     (\<forall>name. listeners c' name \<noteq> Some []) \<and>
     listeners c' event =
       (if filter (\<lambda>(future, check). futures c future \<noteq> Cancelled \<and> check args = Inr False)
             (entries c event) = []
        then None
        else Some (filter (\<lambda>(future, check). futures c future \<noteq> Cancelled \<and> check args = Inr False)
                     (entries c event))) \<and>
     (\<forall>name. name \<noteq> event \<longrightarrow> listeners c' name = listeners c name)"
proof -
  have ok: "waiters_ok (futures c) (entries c event)" and ne: "listeners c event \<noteq> Some []"
    using assms by (simp_all add: reg_inv_def)
  from dispatch_char [OF ok ne, of args]
  obtain c' where d: "dispatch event args c = Ok c'"
    and lis: "listeners c' = (listeners c)
              (event := (if remaining args c event = [] then None else Some (remaining args c event)))"
    by blast
  have inv': "reg_inv c'"
    using reg_inv_dispatch [OF assms d] .
  then have "\<forall>name. listeners c' name \<noteq> Some []"
    by (simp add: reg_inv_def)
  with d inv' lis show ?thesis
    by (intro exI [of _ c']) (simp add: remaining_eq)
qed

text \<open>Both waiters of \<open>ready\<close> are settled, and the key \<open>ready\<close> is gone.\<close>

theorem dispatch_leaves_no_empty_list_witness:
  "reg_inv two_waiters
   \<and> (case dispatch ''ready'' [] two_waiters of
        Ok c' \<Rightarrow> listeners c' ''ready'' = None \<and> listeners c' ''other'' \<noteq> Some []
      | Raise e c' \<Rightarrow> False)"
  using dispatch_leaves_no_empty_list [OF reg_inv_two_waiters, of "''ready''" "[]"]
  by (auto simp: reg_inv_two_waiters two_waiters_fields)

text \<open>
  Claim C3, as stated, asks that the registry no longer holds the waiter right after the
  timeout. It still does: the waiter registered under \<open>ready\<close> is in the list after the
  wait has failed with \<open>TimeoutError\<close>.
\<close>

theorem timed_out_waiter_still_registered:
  "fst (timeout_elapses (fst one_waiter) (snd one_waiter)) = Wait_fails TimeoutError
   \<and> map fst (entries (snd (timeout_elapses (fst one_waiter) (snd one_waiter))) ''ready'') = [0]"
  by (simp add: one_waiter_def wait_for_def new_client_def timeout_elapses_def entries_def
        lower_ready Let_def)

text \<open>
  Claim C3, amended. When the timeout of a wait elapses before any matching dispatch, the
  wait fails with \<open>TimeoutError\<close> and its future is cancelled; the waiter stays in the
  registry until the next dispatch of its event name. No later dispatch calls its
  predicate or settles its future, and the next dispatch of its event name removes it.
\<close>

theorem timed_out_waiter_dropped_by_next_dispatch:
  assumes "reg_inv c" and "wait_for event check c = (f, c1)" and "timeout_elapses f c1 = (r, c2)"
  shows "r = Wait_fails TimeoutError \<and> futures c2 f = Cancelled
     \<and> f \<in> fst ` set (entries c2 (lower event))
     \<and> (\<forall>name args. \<exists>c3. dispatch name args c2 = Ok c3
            \<and> f \<notin> set (checked name args c2)
            \<and> futures c3 f = Cancelled
            \<and> (name = lower event \<longrightarrow> f \<notin> fst ` set (entries c3 name)))"
proof -
  note wf = wait_for_fields [OF assms(2)]
  note tf = timeout_fields [OF assms(3)]
  have inv1: "reg_inv c1" using reg_inv_wait_for [OF assms(1,2)] .
  have inv2: "reg_inv c2" using reg_inv_timeout [OF inv1 assms(3)] .
  have pend: "futures c1 f = Pending" using wf by simp
  have canc: "futures c2 f = Cancelled" using tf pend by simp
  have ent2: "entries c2 name = entries c1 name" for name
    using tf by (simp add: entries_def)
  have mem: "f \<in> fst ` set (entries c2 (lower event))"
    unfolding ent2 entries_wait_for [OF assms(2)] by force
  have after: "\<exists>c3. dispatch name args c2 = Ok c3
            \<and> f \<notin> set (checked name args c2)
            \<and> futures c3 f = Cancelled
            \<and> (name = lower event \<longrightarrow> f \<notin> fst ` set (entries c3 name))" for name args
  proof -
    have ok: "waiters_ok (futures c2) (entries c2 name)" and ne: "listeners c2 name \<noteq> Some []"
      using inv2 by (simp_all add: reg_inv_def)
    from dispatch_char [OF ok ne, of args]
    obtain c3 where d: "dispatch name args c2 = Ok c3"
      and lis: "listeners c3 = (listeners c2)
              (name := (if remaining args c2 name = [] then None else Some (remaining args c2 name)))"
      and out: "\<forall>g. g \<notin> fst ` set (entries c2 name) \<longrightarrow> futures c3 g = futures c2 g"
      and ins: "\<forall>w \<in> set (entries c2 name). futures c3 (fst w) = settle args (snd w) (futures c2 (fst w))"
      and chk: "checked name args c2 = map fst (filter (\<lambda>w. futures c2 (fst w) \<noteq> Cancelled) (entries c2 name))"
      by blast
    have 1: "f \<notin> set (checked name args c2)"
      using canc by (auto simp: chk)
    have 2: "futures c3 f = Cancelled"
    proof (cases "f \<in> fst ` set (entries c2 name)")
      case True
      then obtain w where "w \<in> set (entries c2 name)" "fst w = f" by auto
      with ins canc show ?thesis by (auto simp: settle_def)
    next
      case False
      with out canc show ?thesis by simp
    qed
    have 3: "f \<notin> fst ` set (entries c3 name)"
      using canc by (auto simp: entries_after [OF lis] remaining_def leaves_def)
    from d 1 2 3 show ?thesis by blast
  qed
  from tf pend canc mem after show ?thesis by blast
qed

text \<open>A wait for \<open>Ready\<close> that times out, followed by a dispatch of \<open>ready\<close>.\<close>

theorem timed_out_waiter_dropped_by_next_dispatch_witness:
  "reg_inv (new_client False [] [] :: unit client)
   \<and> wait_for ''Ready'' None (new_client False [] [] :: unit client) = one_waiter
   \<and> fst (timeout_elapses (fst one_waiter) (snd one_waiter)) = Wait_fails TimeoutError
   \<and> 0 \<notin> set (checked ''ready'' [] (snd (timeout_elapses (fst one_waiter) (snd one_waiter))))
   \<and> (case dispatch ''ready'' [] (snd (timeout_elapses (fst one_waiter) (snd one_waiter))) of
        Ok c3 \<Rightarrow> futures c3 0 = Cancelled \<and> 0 \<notin> fst ` set (entries c3 ''ready'')
      | Raise e c3 \<Rightarrow> False)"
proof -
  have h1: "reg_inv (new_client False [] [] :: unit client)"
    by (rule reg_inv_new_client)
  have h2: "wait_for ''Ready'' None (new_client False [] [] :: unit client)
      = (fst one_waiter, snd one_waiter)"
    by (simp add: one_waiter_def)
  have h3: "timeout_elapses (fst one_waiter) (snd one_waiter)
      = (fst (timeout_elapses (fst one_waiter) (snd one_waiter)),
         snd (timeout_elapses (fst one_waiter) (snd one_waiter)))"
    by simp
  have f0: "fst one_waiter = 0"
    by (simp add: one_waiter_def wait_for_def new_client_def Let_def)
  from timed_out_waiter_dropped_by_next_dispatch [OF h1 h2 h3]
  have r: "fst (timeout_elapses (fst one_waiter) (snd one_waiter)) = Wait_fails TimeoutError"
    and every: "\<forall>name args. \<exists>c3.
        dispatch name args (snd (timeout_elapses (fst one_waiter) (snd one_waiter))) = Ok c3
        \<and> 0 \<notin> set (checked name args (snd (timeout_elapses (fst one_waiter) (snd one_waiter))))
        \<and> futures c3 0 = Cancelled
        \<and> (name = ''ready'' \<longrightarrow> 0 \<notin> fst ` set (entries c3 name))"
    by (simp_all add: lower_ready f0)
  from every [rule_format, of "''ready''" "[]"] r h1 show ?thesis
    by (auto simp: one_waiter_def)
qed

text \<open>
  Claim C4, as stated, has \<open>dispatch\<close> look the event name up without regard to letter
  case. It does not: after \<open>wait_for('Ready')\<close>, which registers under \<open>ready\<close>, a dispatch
  of \<open>Ready\<close> calls no predicate and leaves the future pending and the waiter registered.
\<close>

theorem dispatch_reads_name_verbatim:
  "fst one_waiter = 0
   \<and> checked ''Ready'' [] (snd one_waiter) = []
   \<and> (case dispatch ''Ready'' [] (snd one_waiter) of
        Ok c' \<Rightarrow> futures c' 0 = Pending \<and> map fst (entries c' ''ready'') = [0]
      | Raise e c' \<Rightarrow> False)"
  by (simp add: one_waiter_def wait_for_def new_client_def dispatch_def waiter_pass_def
        checked_def entries_def lower_ready Let_def)

text \<open>
  Claim C4, amended. \<open>wait_for\<close> registers the waiter under the lower-cased event name, and
  \<open>dispatch\<close> looks up the name it is given as it is: the waiter is found and its
  predicate evaluated by exactly the dispatch calls whose name is the lower-cased name.
\<close>

theorem waiter_found_under_lower_case_name:
  assumes "reg_inv c" and "wait_for event check c = (f, c1)"
  shows "f \<in> set (checked name args c1) \<longleftrightarrow> name = lower event"
proof -
  note wf = wait_for_fields [OF assms(2)]
  note ent = entries_wait_for [OF assms(2)]
  have inv1: "reg_inv c1" using reg_inv_wait_for [OF assms] .
  have ok: "waiters_ok (futures c1) (entries c1 name)" and ne: "listeners c1 name \<noteq> Some []"
    using inv1 by (simp_all add: reg_inv_def)
  from dispatch_char [OF ok ne, of args]
  have chk: "checked name args c1 = map fst (filter (\<lambda>w. futures c1 (fst w) \<noteq> Cancelled) (entries c1 name))"
    by blast
  have old: "fst w < f" if "w \<in> set (entries c nm)" for w nm
    using assms(1) that wf by (auto simp: reg_inv_def)
  show ?thesis
  proof (cases "name = lower event")
    case True
    define k where "k = (case check of None \<Rightarrow> (\<lambda>_. Inr True) | Some g \<Rightarrow> g)"
    have "(f, k) \<in> set (entries c1 name)"
      by (simp add: ent True k_def)
    moreover have "futures c1 f = Pending" using wf by simp
    ultimately have "(f, k) \<in> set (filter (\<lambda>w. futures c1 (fst w) \<noteq> Cancelled) (entries c1 name))"
      by simp
    then have "fst (f, k) \<in> fst ` set (filter (\<lambda>w. futures c1 (fst w) \<noteq> Cancelled) (entries c1 name))"
      by (rule imageI)
    then show ?thesis unfolding chk using True by simp
  next
    case False
    then have "f \<notin> fst ` set (entries c1 name)"
      using old [of _ name] by (auto simp: ent)
    with False show ?thesis unfolding chk by auto
  qed
qed

text \<open>A wait for \<open>Ready\<close> is found by the dispatch of \<open>ready\<close>.\<close>

theorem waiter_found_under_lower_case_name_witness:
  "reg_inv (new_client False [] [] :: unit client)
   \<and> wait_for ''Ready'' None (new_client False [] [] :: unit client) = one_waiter
   \<and> fst one_waiter \<in> set (checked ''ready'' [] (snd one_waiter))
   \<and> fst one_waiter \<notin> set (checked ''Ready'' [] (snd one_waiter))"
proof -
  have h1: "reg_inv (new_client False [] [] :: unit client)"
    by (rule reg_inv_new_client)
  have h2: "wait_for ''Ready'' None (new_client False [] [] :: unit client)
      = (fst one_waiter, snd one_waiter)"
    by (simp add: one_waiter_def)
  from waiter_found_under_lower_case_name [OF h1 h2, of "''ready''" "[]"]
    waiter_found_under_lower_case_name [OF h1 h2, of "''Ready''" "[]"]
  show ?thesis
    using h1 by (simp add: lower_ready one_waiter_def)
qed

section \<open>Properties of \<open>_run_event\<close>\<close>

text \<open>
  Claim C6. In \<open>_run_event\<close>, a handler that raises \<open>CancelledError\<close> ends silently and
  \<open>on_error\<close> is not called; a handler that raises another exception makes exactly one
  call of \<open>on_error\<close>, with the event name and the same arguments. In neither case does
  the handler's exception leave the wrapper: the wrapper returns, unless \<open>on_error\<close>
  itself raises, and then it is that exception which leaves.
\<close>

theorem run_event_contains_handler_failure:
  "(coro args = Cancels \<longrightarrow>
      hook_calls (run_event coro on_error event_name args) = []
      \<and> finished (run_event coro on_error event_name args) = Returns)
   \<and> (coro args = Raises e \<longrightarrow>
      hook_calls (run_event coro on_error event_name args) = [(event_name, args)]
      \<and> finished (run_event coro on_error event_name args) =
          (case on_error event_name args of Raises e' \<Rightarrow> Raises e' | _ \<Rightarrow> Returns))
   \<and> (coro args = Returns \<longrightarrow>
      hook_calls (run_event coro on_error event_name args) = []
      \<and> finished (run_event coro on_error event_name args) = Returns)"
  by (auto simp: run_event_def split: outcome.splits)

text \<open>A handler that raises, with the default \<open>on_error\<close>, which returns.\<close>

theorem run_event_contains_handler_failure_witness:
  "run_event (\<lambda>_. Raises (OtherError ''boom'')) (\<lambda>_ _. Returns) ''on_message_new'' [Obj ()]
     = \<lparr> hook_calls = [(''on_message_new'', [Obj ()])], finished = Returns \<rparr>
   \<and> run_event (\<lambda>_. Cancels) (\<lambda>_ _. Returns) ''on_message_new'' [Obj ()]
     = \<lparr> hook_calls = [], finished = Returns \<rparr>"
  using run_event_contains_handler_failure
      [of "\<lambda>_. Raises (OtherError ''boom'')" "[Obj ()]" "\<lambda>_ _. Returns" "''on_message_new''"
          "OtherError ''boom''"]
    run_event_contains_handler_failure
      [of "\<lambda>_. Cancels" "[Obj ()]" "\<lambda>_ _. Returns" "''on_message_new''" "OtherError ''boom''"]
  by (simp add: event_run.equality)

section \<open>Properties of \<open>handle_update\<close>\<close>







lemma lower_message_reply: "lower ''message_reply'' = ''message_reply''"
  by (simp add: lower_def lower_char_def)

text \<open>
  Claim C10, as stated, makes \<open>message_new\<close> the only type that \<open>handle_update\<close> hydrates
  and dispatches itself. An update of type \<open>message_reply\<close> whose handler name is
  registered is built and dispatched inside \<open>handle_update\<close> as well: the waiter is
  settled when \<open>handle_update\<close> returns, and no task has been started.
\<close>

theorem message_reply_dispatched_inline:
  "(case handle_update plain_collab reply_update reply_client of
      Ok c1 \<Rightarrow> futures c1 0 = Finished (Sole (Obj ())) \<and> tasks c1 = []
    | Raise e c1 \<Rightarrow> False)"
  by (simp add: reply_client_def reply_update_def plain_collab_def wait_for_def new_client_def
        handle_update_def handle_other_def handle_message_reply_def extra_def
        dispatch_def waiter_pass_def set_result_def lower_message_reply Let_def)


lemma message_new_inline:
  assumes "subscript update ''type'' = Inr (JStr t)" and "subscript update ''object'' = Inr obj"
    and a: "t = ''message_new'' \<and> subscript obj ''message'' = Inr message
            \<and> build_msg co message = Inr msg \<and> py_get message ''payload'' JNull = Inr payload"
  shows "handle_update co update c = dispatch (message_event co payload msg) [Obj msg] c"
proof -
  have "handle_update co update c = handle_message co message c"
    using assms by (simp add: handle_update_def)
  also have "\<dots> = dispatch (message_event co payload msg) [Obj msg] c"
    unfolding handle_message_def message_event_def
    using a by (cases "action_type co msg") (simp_all add: start_payload_def)
  finally show ?thesis .
qed

lemma message_reply_inline:
  assumes "subscript update ''type'' = Inr (JStr t)" and "subscript update ''object'' = Inr obj"
    and a: "t \<in> set [''message_reply'', ''message_edit''] \<and> ''on_'' @ t \<in> set (extra_events c)
            \<and> build_msg co obj = Inr msg"
  shows "handle_update co update c = dispatch t [Obj msg] c"
proof -
  from a have "t = ''message_reply'' \<or> t = ''message_edit''" by simp
  then have "handle_other co t obj update c = dispatch t [Obj msg] c"
    using a
    apply (elim disjE)
    apply (simp_all add: handle_other_def extra_def handle_message_reply_def handle_message_edit_def)
    done
  moreover have "t \<noteq> ''message_new''"
    using a by auto
  ultimately show ?thesis
    using assms by (simp add: handle_update_def)
qed

lemma spawned_not_inline:
  assumes "subscript update ''type'' = Inr (JStr t)" and "subscript update ''object'' = Inr obj"
    and a: "map_of spawned_types t = Some coro
      \<and> (\<exists>name \<in> set (gate_names t). name \<in> set (extra_events c))"
  shows "handle_update co update c = Ok (c\<lparr> tasks := tasks c @ [Hydration_task coro t obj] \<rparr>)"
proof -
  from a have "(t, coro) \<in> set spawned_types"
    by (auto dest: map_of_SomeD)
  then have "handle_other co t obj update c = Ok (c\<lparr> tasks := tasks c @ [Hydration_task coro t obj] \<rparr>)"
    using conjunct2 [OF a]
    apply (simp only: spawned_types_def set_simps insert_iff empty_iff prod.inject)
    apply (elim disjE conjE)
    apply (simp_all add: handle_other_def extra_def any_extra_def gate_names_def
          implemented_events_def create_task_def)
    done
  moreover have "t \<noteq> ''message_new''"
    using a by (auto simp: spawned_types_def)
  ultimately show ?thesis
    using assms by (simp add: handle_update_def)
qed

lemma dispatch_queue:
  assumes "dispatch event args c = Ok c'"
  shows "tasks c' = tasks c @ (if ''on_'' @ event \<in> set (methods c)
                               then [Handler_task (''on_'' @ event) args] else [])
         \<and> methods c' = methods c"
proof -
  obtain c1 where w: "waiter_pass event args c = Ok c1"
    using assms by (cases "waiter_pass event args c") (auto simp: dispatch_def)
  then have "tasks c1 = tasks c \<and> methods c1 = methods c"
    by (auto simp: waiter_pass_def split: option.splits if_splits prod.splits)
  with assms w show ?thesis
    by (auto simp: dispatch_def)
qed

lemma message_new_queue:
  assumes "subscript update ''type'' = Inr (JStr ''message_new'')"
    and "handle_update co update c = Ok c'"
  shows "tasks c' = tasks c @ queued_handler co c update \<and> methods c' = methods c"
proof -
  from assms obtain ob message msg payload where
    r: "subscript update ''object'' = Inr ob" "subscript ob ''message'' = Inr message"
       "build_msg co message = Inr msg" "py_get message ''payload'' JNull = Inr payload"
    by (auto simp: handle_update_def handle_message_def split: sum.splits)
  from message_new_inline [OF assms(1) r(1), of message co msg payload c] r assms(2)
  have "dispatch (message_event co payload msg) [Obj msg] c = Ok c'" by simp
  from dispatch_queue [OF this] r show ?thesis
    by (simp add: queued_handler_def message_dispatch_def)
qed

lemma batch_in_order:
  assumes "\<forall>u \<in> set us. subscript u ''type'' = Inr (JStr ''message_new'')"
    and "handle_batch co us c = Ok c'"
  shows "tasks c' = tasks c @ concat (map (queued_handler co c) us)"
  using assms
proof (induction us arbitrary: c)
  case Nil
  then show ?case by simp
next
  case (Cons u us)
  from Cons.prems(2) obtain c1 where
    h: "handle_update co u c = Ok c1" and b: "handle_batch co us c1 = Ok c'"
    by (auto split: result.splits)
  from Cons.prems(1) have t: "subscript u ''type'' = Inr (JStr ''message_new'')"
    and ts: "\<forall>u \<in> set us. subscript u ''type'' = Inr (JStr ''message_new'')"
    by simp_all
  note q = message_new_queue [OF t h]
  have "methods c1 = methods c"
    using q by simp
  then have same: "queued_handler co c1 = queued_handler co c"
    by (auto simp: queued_handler_def fun_eq_iff split: option.splits)
  from Cons.IH [OF ts b] q show ?case
    by (simp add: same)
qed

text \<open>
  Claim C10, amended. The types hydrated by \<open>build_msg\<close>, which makes no request, are
  dispatched inside \<open>handle_update\<close>, before the loop takes the next update: \<open>message_new\<close>
  always, so that the handlers of a batch of new messages are queued in the order of the
  batch, and \<open>message_reply\<close> and \<open>message_edit\<close> when their handler name is registered.
  Every type served by an \<open>async def\<close> method, whose hydration awaits further calls, is
  started as a task when its branch is open: \<open>handle_update\<close> returns with the task
  queued and nothing dispatched.
\<close>

theorem inline_and_spawned_hydration:
  "(subscript update ''type'' = Inr (JStr ''message_new'') \<and> subscript update ''object'' = Inr obj
      \<and> subscript obj ''message'' = Inr message \<and> build_msg co message = Inr msg
      \<and> py_get message ''payload'' JNull = Inr payload
    \<longrightarrow> handle_update co update c = dispatch (message_event co payload msg) [Obj msg] c)
   \<and> ((\<forall>u \<in> set us. subscript u ''type'' = Inr (JStr ''message_new''))
      \<and> handle_batch co us c = Ok c'
    \<longrightarrow> tasks c' = tasks c @ concat (map (queued_handler co c) us))
   \<and> (subscript update ''type'' = Inr (JStr t) \<and> subscript update ''object'' = Inr obj
      \<and> t \<in> set [''message_reply'', ''message_edit''] \<and> ''on_'' @ t \<in> set (extra_events c)
      \<and> build_msg co obj = Inr msg
    \<longrightarrow> handle_update co update c = dispatch t [Obj msg] c)
   \<and> (subscript update ''type'' = Inr (JStr t) \<and> subscript update ''object'' = Inr obj
      \<and> map_of spawned_types t = Some coro
      \<and> (\<exists>name \<in> set (gate_names t). name \<in> set (extra_events c))
    \<longrightarrow> handle_update co update c = Ok (c\<lparr> tasks := tasks c @ [Hydration_task coro t obj] \<rparr>))"
proof (intro conjI impI)
  assume "subscript update ''type'' = Inr (JStr ''message_new'') \<and> subscript update ''object'' = Inr obj
      \<and> subscript obj ''message'' = Inr message \<and> build_msg co message = Inr msg
      \<and> py_get message ''payload'' JNull = Inr payload"
  then show "handle_update co update c = dispatch (message_event co payload msg) [Obj msg] c"
    using message_new_inline [of update "''message_new''" obj message co msg payload c] by simp
next
  assume "(\<forall>u \<in> set us. subscript u ''type'' = Inr (JStr ''message_new''))
      \<and> handle_batch co us c = Ok c'"
  then show "tasks c' = tasks c @ concat (map (queued_handler co c) us)"
    using batch_in_order [of us co c c'] by simp
next
  assume "subscript update ''type'' = Inr (JStr t) \<and> subscript update ''object'' = Inr obj
      \<and> t \<in> set [''message_reply'', ''message_edit''] \<and> ''on_'' @ t \<in> set (extra_events c)
      \<and> build_msg co obj = Inr msg"
  then show "handle_update co update c = dispatch t [Obj msg] c"
    using message_reply_inline [of update t obj c co msg] by simp
next
  assume "subscript update ''type'' = Inr (JStr t) \<and> subscript update ''object'' = Inr obj
      \<and> map_of spawned_types t = Some coro
      \<and> (\<exists>name \<in> set (gate_names t). name \<in> set (extra_events c))"
  then show "handle_update co update c = Ok (c\<lparr> tasks := tasks c @ [Hydration_task coro t obj] \<rparr>)"
    using spawned_not_inline [of update t obj coro c co] by simp
qed

text \<open>
  Two new messages in one batch, whose handlers are queued in the order of the batch, and
  an update of type \<open>message_deny\<close>, whose hydration becomes a task.
\<close>

theorem inline_and_spawned_hydration_witness:
  "(case handle_batch raw_collab [message_update ''hello'', message_update ''bye'']
           (new_client False [] [''on_message_new'']) of
      Ok c' \<Rightarrow>
        tasks c' = [Handler_task ''on_message_new'' [Obj (JObj [(''text'', JStr ''hello'')])],
                    Handler_task ''on_message_new'' [Obj (JObj [(''text'', JStr ''bye'')])]]
    | Raise e c' \<Rightarrow> False)
   \<and> handle_update raw_collab deny_update (new_client False [''on_message_deny''] [])
       = Ok (new_client False [''on_message_deny''] []
              \<lparr> tasks := [Hydration_task ''handle_message_allow'' ''message_deny''
                            (JObj [(''user_id'', JInt 7)])] \<rparr>)"
proof -
  let ?c = "new_client False [] [''on_message_new''] :: json client"
  let ?d = "new_client False [''on_message_deny''] [] :: json client"
  let ?us = "[message_update ''hello'', message_update ''bye'']"
  obtain c' where b: "handle_batch raw_collab ?us ?c = Ok c'"
    by (simp add: message_update_def raw_collab_def new_client_def handle_update_def
          handle_message_def dispatch_def waiter_pass_def Let_def)
  have t: "\<forall>u \<in> set ?us. subscript u ''type'' = Inr (JStr ''message_new'')"
    by (simp add: message_update_def)
  have q: "concat (map (queued_handler raw_collab ?c) ?us)
      = [Handler_task ''on_message_new'' [Obj (JObj [(''text'', JStr ''hello'')])],
         Handler_task ''on_message_new'' [Obj (JObj [(''text'', JStr ''bye'')])]]"
    by (simp add: queued_handler_def message_dispatch_def message_event_def message_update_def
          raw_collab_def new_client_def)
  have d: "subscript deny_update ''type'' = Inr (JStr ''message_deny'')"
    "subscript deny_update ''object'' = Inr (JObj [(''user_id'', JInt 7)])"
    "map_of spawned_types ''message_deny'' = Some ''handle_message_allow''"
    "\<exists>name \<in> set (gate_names ''message_deny''). name \<in> set (extra_events ?d)"
    by (simp_all add: deny_update_def spawned_types_def gate_names_def new_client_def)
  from inline_and_spawned_hydration
    [of deny_update "JObj [(''user_id'', JInt 7)]" JNull raw_collab JNull JNull ?c
        ?us c' "''message_deny''" "''handle_message_allow''"]
    inline_and_spawned_hydration
    [of deny_update "JObj [(''user_id'', JInt 7)]" JNull raw_collab JNull JNull ?d
        "[]" ?d "''message_deny''" "''handle_message_allow''"]
    b t q d
  show ?thesis
    by (simp add: new_client_def)
qed

section \<open>Properties of negotiation and polling\<close>










lemma request_tries_returns:
  "request_tries k url n = Some (r, n') \<Longrightarrow> \<exists>body. r = Inr body"
  by (induction k url n rule: request_tries.induct)
     (auto split: list.splits attempt.splits)

lemma general_request_never_raises:
  "general_request url n \<noteq> Some (Inl e, n')"
  using request_tries_returns [of 5 url n "Inl e" n']
  by (auto simp: general_request_def)

lemma successful_poll:
  assumes "general_request (server c) n = Some (Inr res, n1)"
    and "has_key res ''ts'' = Inr True" and "has_key res ''failed'' = Inr False"
    and "subscript res ''ts'' = Inr ts'" and "py_get res ''updates'' (JList []) = Inr updates"
  shows "longpoll ts c n = Some (Inr (ts', updates), c, n1)"
  using assms by (simp add: longpoll_def poll_result_def)

lemma cursor_adopted:
  assumes "longpoll ts c n = Some (Inr (ts', updates'), c2, n2)"
  shows "run_cycle co (ts, JList [], c) n = Some (Inr (ts', updates', c2), n2)"
  using assms by (simp add: run_cycle_def)

text \<open>
  Claim C7. A poll whose answer carries \<open>ts\<close> returns that \<open>ts\<close>, and the loop adopts it
  whatever the batch (lemmas \<open>successful_poll\<close> and \<open>cursor_adopted\<close>). The second half of
  the claim fails on the code: \<open>general_request\<close> catches every exception of a request
  itself, \<open>TimeoutError\<close> included, so the \<open>except asyncio.TimeoutError\<close> of \<open>longpoll\<close>
  is never reached. When the five tries of one poll all time out, \<open>general_request\<close>
  returns \<open>None\<close> and \<open>longpoll\<close> raises \<open>AttributeError\<close> on \<open>res.keys()\<close>, instead of
  returning the unchanged \<open>ts\<close> with an empty list.
\<close>

theorem poll_raises_after_timeouts:
  "longpoll (JStr ''42'') polling_client timeouts_net =
     Some (Inl AttributeError, polling_client,
           \<lparr> script = [],
             sent = [JStr ''https://lp.vk.com/wh1'', JStr ''https://lp.vk.com/wh1'',
                     JStr ''https://lp.vk.com/wh1'', JStr ''https://lp.vk.com/wh1'',
                     JStr ''https://lp.vk.com/wh1''] \<rparr>)"
  by (simp add: longpoll_def general_request_def timeouts_net_def polling_client_def
        new_client_def eval_nat_numeral)

section \<open>Properties of the loop of \<open>_run\<close>\<close>







end
